theory Spec2Isabelle
  imports Main
begin

section \<open>Dice expressions of the VTT API (dice\_utils.py)\<close>

text \<open>
  The development follows \<^verbatim>\<open>src/dice_utils.py\<close> function by function and the dice
  endpoint of \<^verbatim>\<open>src/main.py\<close>. Python strings are modelled as \<^typ>\<open>string\<close> over
  the ASCII range: a digit is one of \<open>0\<close> .. \<open>9\<close>, and \<^verbatim>\<open>lower()\<close> maps \<open>A\<close> .. \<open>Z\<close>
  to \<open>a\<close> .. \<open>z\<close>. (In Python \<^verbatim>\<open>\d\<close> also matches the decimal digits of other
  scripts; texts with such characters are outside the model.) Python integers are
  unbounded and modelled as \<^typ>\<open>int\<close>; \<^verbatim>\<open>int()\<close> and \<^verbatim>\<open>str()\<close> are modelled
  without the interpreter's configurable limit on the number of digits of a conversion.
\<close>

subsection \<open>Exceptions\<close>

text \<open>
  Every failure of the dice code is a \<^verbatim>\<open>ValueError\<close> carrying a message. The second
  constructor stands for an exception of any other class: \<^verbatim>\<open>except ValueError\<close> lets
  it pass, \<^verbatim>\<open>except Exception\<close> catches it.
\<close>

datatype py_exception = ValueError string | OtherException string

fun str_exception :: "py_exception \<Rightarrow> string" where
  "str_exception (ValueError msg) = msg"
| "str_exception (OtherException msg) = msg"

subsection \<open>Integers and their decimal text\<close>

definition is_digit :: "char \<Rightarrow> bool" where
  "is_digit c = (c \<in> set ''0123456789'')"

definition digit_val :: "char \<Rightarrow> nat" where
  "digit_val c = of_char c - 48"

definition digit_char :: "nat \<Rightarrow> char" where
  "digit_char n = ''0123456789'' ! n"

text \<open>\<^verbatim>\<open>str(n)\<close> for a natural number: no leading zero, \<open>0\<close> is the one digit \<open>0\<close>.\<close>

fun str_nat :: "nat \<Rightarrow> string" where
  "str_nat n = (if n < 10 then [digit_char n] else str_nat (n div 10) @ [digit_char (n mod 10)])"

declare str_nat.simps [simp del]

text \<open>\<^verbatim>\<open>str(i)\<close> and the f-string field \<^verbatim>\<open>{i}\<close> for an integer.\<close>

definition str_int :: "int \<Rightarrow> string" where
  "str_int i = (if i < 0 then CHR ''-'' # str_nat (nat (- i)) else str_nat (nat i))"

text \<open>The f-string field \<^verbatim>\<open>{i:+d}\<close>: the sign is always written.\<close>

definition format_plus_d :: "int \<Rightarrow> string" where
  "format_plus_d i = (if i < 0 then str_int i else CHR ''+'' # str_int i)"

definition digits_value :: "string \<Rightarrow> nat" where
  "digits_value s = foldl (\<lambda>acc c. 10 * acc + digit_val c) 0 s"

text \<open>
  \<^verbatim>\<open>int(s)\<close> on the texts a group of the pattern can hold: an optional sign and a
  non-empty run of digits. Any other text raises \<^verbatim>\<open>ValueError\<close>. (Python also accepts
  surrounding blanks and underscores between digits; no group of the pattern contains
  either.)
\<close>

definition py_int :: "string \<Rightarrow> py_exception + int" where
  "py_int s =
     (let negative = (s \<noteq> [] \<and> hd s = CHR ''-'');
          body = (if s \<noteq> [] \<and> (hd s = CHR ''+'' \<or> hd s = CHR ''-'') then tl s else s)
      in if body = [] \<or> \<not> list_all is_digit body
         then Inl (ValueError (''invalid literal for int() with base 10: '' @ [CHR 0x27] @ s @ [CHR 0x27]))
         else if negative then Inr (- int (digits_value body))
         else Inr (int (digits_value body)))"

subsection \<open>parse\_dice\_expression\<close>

text \<open>\<^verbatim>\<open>expression.replace(" ", "").lower()\<close>: only the space character is removed.\<close>

definition lower_char :: "char \<Rightarrow> char" where
  "lower_char c =
     (case map_of (zip ''ABCDEFGHIJKLMNOPQRSTUVWXYZ'' ''abcdefghijklmnopqrstuvwxyz'') c of
        Some l \<Rightarrow> l
      | None \<Rightarrow> c)"

definition lower :: "string \<Rightarrow> string" where
  "lower s = map lower_char s"

definition replace_spaces :: "string \<Rightarrow> string" where
  "replace_spaces s = filter (\<lambda>c. c \<noteq> CHR '' '') s"

text \<open>
  One attempt of the pattern \<^verbatim>\<open>(\d*)d(\d+)([+-]\d+)?\<close> at the head of a text, giving
  the three groups and the text after the match. The quantifiers are greedy. Group 1
  takes the whole run of digits: giving a digit back leaves a digit where the letter
  \<open>d\<close> is required. Group 2 takes the whole run after the \<open>d\<close> and needs one digit at
  least. Group 3 is tried when a sign follows, takes the whole run of digits after the
  sign and needs one digit at least; when it does not take part it is the empty text,
  as \<^verbatim>\<open>re.findall\<close> reports it. Nothing follows group 3 in the pattern, so no
  quantifier ever gives anything back after the letter \<open>d\<close> has matched.
\<close>

type_synonym groups = "string \<times> string \<times> string"

definition match_pattern :: "string \<Rightarrow> (groups \<times> string) option" where
  "match_pattern s =
     (let count_str = takeWhile is_digit s; r1 = dropWhile is_digit s
      in case r1 of
           [] \<Rightarrow> None
         | c # r2 \<Rightarrow>
             if c \<noteq> CHR ''d'' then None
             else let sides_str = takeWhile is_digit r2; r3 = dropWhile is_digit r2
               in if sides_str = [] then None
                  else (case r3 of
                          [] \<Rightarrow> Some ((count_str, sides_str, []), r3)
                        | sg # r4 \<Rightarrow>
                            if (sg = CHR ''+'' \<or> sg = CHR ''-'') \<and> takeWhile is_digit r4 \<noteq> []
                            then Some ((count_str, sides_str, sg # takeWhile is_digit r4),
                                       dropWhile is_digit r4)
                            else Some ((count_str, sides_str, []), r3)))"

text \<open>
  \<^verbatim>\<open>re.findall\<close>: scan from the left; where the pattern matches, record the groups
  and go on after the match; where it does not, go on one character further. A match
  is never empty, so the scan always advances.
\<close>

function findall :: "string \<Rightarrow> groups list" where
  "findall [] = []"
| "findall (c # cs) =
     (case match_pattern (c # cs) of
        None \<Rightarrow> findall cs
      | Some (g, rest) \<Rightarrow> g # findall rest)"
  by pat_completeness auto
termination
proof (relation "measure length")
  show "wf (measure length)" by simp
next
  fix c :: char and cs :: string
  show "(cs, c # cs) \<in> measure length" by simp
next
  fix c :: char and cs :: string and x2 :: "groups \<times> string" and g :: groups and rest :: string
  assume m: "match_pattern (c # cs) = Some x2" and x2: "(g, rest) = x2"
  let ?s = "c # cs"
  have d: "length (dropWhile is_digit xs) \<le> length xs" for xs
    by (rule length_dropWhile_le)
  obtain k r2 where r1: "dropWhile is_digit ?s = k # r2"
    using m by (auto simp: match_pattern_def Let_def split: list.splits)
  have l1: "length r2 < length ?s"
    using d [of ?s] r1 by simp
  have "rest = dropWhile is_digit r2 \<or>
        (\<exists>sg r4. dropWhile is_digit r2 = sg # r4 \<and> rest = dropWhile is_digit r4)"
    using m x2 r1 by (auto simp: match_pattern_def Let_def split: list.splits if_splits)
  then have "length rest < length ?s"
  proof
    assume "rest = dropWhile is_digit r2"
    then show ?thesis using d [of r2] l1 by simp
  next
    assume "\<exists>sg r4. dropWhile is_digit r2 = sg # r4 \<and> rest = dropWhile is_digit r4"
    then obtain sg r4 where r3: "dropWhile is_digit r2 = sg # r4" and r: "rest = dropWhile is_digit r4"
      by blast
    have "length r4 < length r2" using d [of r2] r3 by simp
    then show ?thesis using d [of r4] r l1 by simp
  qed
  then show "(rest, c # cs) \<in> measure length" by simp
qed

text \<open>
  Lines 28 to 32: the three groups of one match as integers. An empty count is 1, an
  empty modifier is 0.
\<close>

type_synonym component = "int \<times> int \<times> int"

definition convert_groups :: "groups \<Rightarrow> py_exception + component" where
  "convert_groups match =
     (case match of (count_str, sides_str, modifier_str) \<Rightarrow>
        (case (if count_str \<noteq> [] then py_int count_str else Inr 1) of
           Inl e \<Rightarrow> Inl e
         | Inr count \<Rightarrow>
        (case py_int sides_str of
           Inl e \<Rightarrow> Inl e
         | Inr sides \<Rightarrow>
        (case (if modifier_str \<noteq> [] then py_int modifier_str else Inr 0) of
           Inl e \<Rightarrow> Inl e
         | Inr modifier \<Rightarrow> Inr (count, sides, modifier)))))"

text \<open>
  The loop over the matches (lines 26 to 39): each match is converted, its count is
  checked, then its sides, and the term is appended to \<open>components\<close>. The first
  \<^verbatim>\<open>raise\<close> ends the loop and the list built so far is lost.
\<close>

fun components_loop :: "groups list \<Rightarrow> component list \<Rightarrow> py_exception + component list" where
  "components_loop [] components = Inr components"
| "components_loop (match # matches) components =
     (case convert_groups match of
        Inl e \<Rightarrow> Inl e
      | Inr (count, sides, modifier) \<Rightarrow>
          if count \<le> 0 \<or> count > 100
          then Inl (ValueError (''Invalid dice count: '' @ str_int count))
          else if sides \<le> 0 \<or> sides > 1000
          then Inl (ValueError (''Invalid dice sides: '' @ str_int sides))
          else components_loop matches (components @ [(count, sides, modifier)]))"

definition parse_dice_expression :: "string \<Rightarrow> py_exception + component list" where
  "parse_dice_expression expression0 =
     (let expression = lower (replace_spaces expression0);
          matches = findall expression
      in if matches = []
         then Inl (ValueError (''Invalid dice expression: '' @ expression))
         else components_loop matches [])"

subsection \<open>validate\_dice\_expression\<close>

text \<open>
  \<^verbatim>\<open>except ValueError\<close> turns a \<^verbatim>\<open>ValueError\<close> into \<open>False\<close>; an exception of
  another class would leave the function.
\<close>

definition validate_dice_expression :: "string \<Rightarrow> py_exception + bool" where
  "validate_dice_expression expression =
     (case parse_dice_expression expression of
        Inr components \<Rightarrow> Inr True
      | Inl (ValueError msg) \<Rightarrow> Inr False
      | Inl (OtherException msg) \<Rightarrow> Inl (OtherException msg))"

subsection \<open>roll\_dice\<close>

text \<open>
  The module's random generator is global state. It is modelled as the infinite
  sequence of raw values it will deliver; a draw consumes the first one.
  \<^verbatim>\<open>random.randint(a, b)\<close> returns an integer of the inclusive range from \<open>a\<close> to \<open>b\<close>
  and raises \<^verbatim>\<open>ValueError\<close> when the range is empty (the wording of that message
  differs between versions of the library; no statement depends on it).
\<close>

type_synonym rng = "nat \<Rightarrow> nat"

definition randint :: "int \<Rightarrow> int \<Rightarrow> rng \<Rightarrow> (py_exception + int) \<times> rng" where
  "randint a b g =
     (if b < a then (Inl (ValueError ''empty range for randrange()''), g)
      else (Inr (a + int (g 0 mod nat (b - a + 1))), \<lambda>i. g (Suc i)))"

text \<open>The comprehension \<^verbatim>\<open>[random.randint(1, sides) for _ in range(count)]\<close>.\<close>

fun roll_list :: "int \<Rightarrow> nat \<Rightarrow> rng \<Rightarrow> (py_exception + int list) \<times> rng" where
  "roll_list sides 0 g = (Inr [], g)"
| "roll_list sides (Suc n) g =
     (case randint 1 sides g of
        (Inl e, g') \<Rightarrow> (Inl e, g')
      | (Inr r, g') \<Rightarrow>
          (case roll_list sides n g' of
             (Inl e, g'') \<Rightarrow> (Inl e, g'')
           | (Inr rs, g'') \<Rightarrow> (Inr (r # rs), g'')))"

text \<open>\<^verbatim>\<open>sep.join(parts)\<close>.\<close>

fun join :: "string \<Rightarrow> string list \<Rightarrow> string" where
  "join sep [] = []"
| "join sep [x] = x"
| "join sep (x # y # ys) = x @ sep @ join sep (y # ys)"

text \<open>Lines 57 to 71: the subtotal of one term and its part of the breakdown.\<close>

definition breakdown_part :: "component \<Rightarrow> int list \<Rightarrow> string" where
  "breakdown_part t rolls =
     (case t of (count, sides, modifier) \<Rightarrow>
        let dice_total = sum_list rolls + modifier;
            dice_str = str_int count @ ''d'' @ str_int sides;
            roll_detail = (if length rolls = 1 then ''['' @ str_int (hd rolls) @ '']''
                           else ''['' @ join ''+'' (map str_int rolls) @ '']'')
        in if modifier \<noteq> 0
           then dice_str @ '': '' @ roll_detail @ format_plus_d modifier @ '' = '' @ str_int dice_total
           else dice_str @ '': '' @ roll_detail @ '' = '' @ str_int dice_total)"

text \<open>
  The loop over the components (lines 52 to 71), with its two accumulators
  (\<open>total_sum\<close> is the variable \<open>total\<close> of the source).
\<close>

fun roll_loop ::
  "component list \<Rightarrow> int \<Rightarrow> string list \<Rightarrow> rng \<Rightarrow> (py_exception + int \<times> string list) \<times> rng" where
  "roll_loop [] total_sum breakdown_parts g = (Inr (total_sum, breakdown_parts), g)"
| "roll_loop ((count, sides, modifier) # components) total_sum breakdown_parts g =
     (case roll_list sides (nat count) g of
        (Inl e, g') \<Rightarrow> (Inl e, g')
      | (Inr rolls, g') \<Rightarrow>
          roll_loop components (total_sum + (sum_list rolls + modifier))
            (breakdown_parts @ [breakdown_part (count, sides, modifier) rolls]) g')"

text \<open>
  \<^verbatim>\<open>roll_dice\<close>: whatever is raised inside the \<^verbatim>\<open>try\<close> block is replaced by a new
  \<^verbatim>\<open>ValueError\<close>. The third component of the result is the parameter \<open>expression\<close>,
  which \<^verbatim>\<open>roll_dice\<close> never assigns.
\<close>

definition roll_dice :: "string \<Rightarrow> rng \<Rightarrow> (py_exception + int \<times> string \<times> string) \<times> rng" where
  "roll_dice expression g =
     (case parse_dice_expression expression of
        Inl e \<Rightarrow> (Inl (ValueError (''Error rolling dice: '' @ str_exception e)), g)
      | Inr components \<Rightarrow>
          (case roll_loop components 0 [] g of
             (Inl e, g') \<Rightarrow> (Inl (ValueError (''Error rolling dice: '' @ str_exception e)), g')
           | (Inr (total_sum, breakdown_parts), g') \<Rightarrow>
               (Inr (total_sum, join '' | '' breakdown_parts, expression), g')))"

subsection \<open>The dice endpoint of main.py\<close>

text \<open>
  \<^verbatim>\<open>roll_dice_endpoint\<close> (lines 202 to 243) as far as the dice code decides it: the
  table lookup is the parameter \<open>table_found\<close>; the chat message written to the
  database and the time stamp of the response are left out. The request schema
  \<^verbatim>\<open>DiceRollRequest\<close> (models.py, line 118) declares the expression with
  \<^verbatim>\<open>min_length=1, max_length=100\<close>: the framework checks the length before the
  function runs and answers a text outside these bounds with status 422. A raised
  \<^verbatim>\<open>HTTPException\<close> is the answer the client gets and is modelled as a result.
\<close>

datatype http_result =
    HTTPException int string
  | RequestValidationError
  | DiceRollResponse string int string

definition roll_dice_endpoint :: "bool \<Rightarrow> string \<Rightarrow> rng \<Rightarrow> (py_exception + http_result) \<times> rng" where
  "roll_dice_endpoint table_found expression0 g =
     (if length expression0 < 1 \<or> length expression0 > 100 then (Inr RequestValidationError, g)
      else if \<not> table_found then (Inr (HTTPException 404 ''Table not found''), g)
      else case validate_dice_expression expression0 of
        Inl e \<Rightarrow> (Inl e, g)
      | Inr valid \<Rightarrow>
          if \<not> valid then (Inr (HTTPException 400 ''Invalid dice expression''), g)
          else (case roll_dice expression0 g of
                  (Inr (result, breakdown, expression), g') \<Rightarrow>
                    (Inr (DiceRollResponse expression result breakdown), g')
                | (Inl (ValueError msg), g') \<Rightarrow> (Inr (HTTPException 400 msg), g')
                | (Inl (OtherException msg), g') \<Rightarrow> (Inl (OtherException msg), g')))"

subsection \<open>Notions used in the statements\<close>

text \<open>The bounds a term must satisfy: a count from 1 to 100, sides from 1 to 1000.\<close>

definition in_bounds :: "component \<Rightarrow> bool" where
  "in_bounds t =
     (case t of (count, sides, modifier) \<Rightarrow>
        1 \<le> count \<and> count \<le> 100 \<and> 1 \<le> sides \<and> sides \<le> 1000)"

text \<open>
  The term sequence extracted from an expression: every match of the cleaned text,
  converted as in lines 28 to 32, before any bound is checked.
\<close>

definition extracted :: "string \<Rightarrow> (py_exception + component) list" where
  "extracted expression = map convert_groups (findall (lower (replace_spaces expression)))"

text \<open>
  \<open>variant s t\<close>: the text \<open>t\<close> is \<open>s\<close> after any number of edits, each of which
  inserts one space character somewhere or changes one letter \<open>d\<close> to \<open>D\<close> or back.
\<close>

inductive variant :: "string \<Rightarrow> string \<Rightarrow> bool" where
  same: "variant s s"
| space: "variant s (a @ b) \<Longrightarrow> variant s (a @ CHR '' '' # b)"
| upper: "variant s (a @ CHR ''d'' # b) \<Longrightarrow> variant s (a @ CHR ''D'' # b)"
| lower: "variant s (a @ CHR ''D'' # b) \<Longrightarrow> variant s (a @ CHR ''d'' # b)"

text \<open>
  The draws a term admits: as many as its count, each from 1 to its sides; and the
  subtotal of a term for given draws.
\<close>

definition valid_draws :: "component \<Rightarrow> int list \<Rightarrow> bool" where
  "valid_draws t rolls =
     (case t of (count, sides, modifier) \<Rightarrow>
        length rolls = nat count \<and> list_all (\<lambda>r. 1 \<le> r \<and> r \<le> sides) rolls)"

definition subtotal :: "component \<Rightarrow> int list \<Rightarrow> int" where
  "subtotal t rolls = (case t of (count, sides, modifier) \<Rightarrow> sum_list rolls + modifier)"

text \<open>
  The display fragment of one term in the words of the specification:
  \<^verbatim>\<open>"{count}d{sides}: [{draws joined by '+'}]{signed modifier if nonzero} = {subtotal}"\<close>,
  where the modifier is written with an explicit sign when it is not zero and is left
  out when it is zero.
\<close>

definition spec_signed_modifier :: "int \<Rightarrow> string" where
  "spec_signed_modifier m =
     (if 0 < m then ''+'' @ str_nat (nat m)
      else if m < 0 then ''-'' @ str_nat (nat (- m))
      else [])"

definition spec_fragment :: "component \<Rightarrow> int list \<Rightarrow> string" where
  "spec_fragment t draws =
     (case t of (count, sides, modifier) \<Rightarrow>
        str_int count @ ''d'' @ str_int sides @ '': ['' @ join ''+'' (map str_int draws) @ '']''
          @ spec_signed_modifier modifier @ '' = '' @ str_int (sum_list draws + modifier))"

section \<open>Properties\<close>

subsection \<open>Decimal text\<close>

lemma is_digit_digit_char: "n < 10 \<Longrightarrow> is_digit (digit_char n)"
proof -
  assume "n < 10"
  then have "n \<in> {0,1,2,3,4,5,6,7,8,9}" by auto
  then show ?thesis by (auto simp: is_digit_def digit_char_def)
qed

lemma digit_val_digit_char: "n < 10 \<Longrightarrow> digit_val (digit_char n) = n"
proof -
  assume "n < 10"
  then have "n \<in> {0,1,2,3,4,5,6,7,8,9}" by auto
  then show ?thesis by (auto simp: digit_val_def digit_char_def)
qed

lemma str_nat_digits: "list_all is_digit (str_nat n)"
proof (induction n rule: str_nat.induct)
  case (1 n)
  show ?case
  proof (cases "n < 10")
    case True
    then show ?thesis by (simp add: str_nat.simps [of n] is_digit_digit_char)
  next
    case False
    with 1 show ?thesis by (simp add: str_nat.simps [of n] is_digit_digit_char)
  qed
qed

lemma str_nat_nonempty: "str_nat n \<noteq> []"
  by (simp add: str_nat.simps [of n])

lemma digits_value_snoc: "digits_value (xs @ [c]) = 10 * digits_value xs + digit_val c"
  by (simp add: digits_value_def)

lemma digits_value_str_nat: "digits_value (str_nat n) = n"
proof (induction n rule: str_nat.induct)
  case (1 n)
  show ?case
  proof (cases "n < 10")
    case True
    then show ?thesis by (simp add: str_nat.simps [of n] digits_value_def digit_val_digit_char)
  next
    case False
    with 1 show ?thesis
      by (simp add: str_nat.simps [of n] digits_value_snoc digit_val_digit_char)
  qed
qed

lemma digit_not_sign: "is_digit c \<Longrightarrow> c \<noteq> CHR ''+'' \<and> c \<noteq> CHR ''-'' \<and> c \<noteq> CHR ''d'' \<and> c \<noteq> CHR '' ''"
  by (auto simp: is_digit_def)

lemma py_int_digits:
  "ds \<noteq> [] \<Longrightarrow> list_all is_digit ds \<Longrightarrow> py_int ds = Inr (int (digits_value ds))"
  by (cases ds) (auto simp: py_int_def Let_def dest: digit_not_sign)

lemma py_int_signed:
  "ds \<noteq> [] \<Longrightarrow> list_all is_digit ds \<Longrightarrow> sg = CHR ''+'' \<or> sg = CHR ''-'' \<Longrightarrow>
   py_int (sg # ds) = Inr (if sg = CHR ''-'' then - int (digits_value ds) else int (digits_value ds))"
  by (auto simp: py_int_def Let_def)

subsection \<open>Matches and the loop over them\<close>

lemma match_pattern_groups:
  assumes "match_pattern s = Some ((c, sd, m), rest)"
  shows "list_all is_digit c \<and> sd \<noteq> [] \<and> list_all is_digit sd \<and>
         (m = [] \<or> (\<exists>sg ds. m = sg # ds \<and> (sg = CHR ''+'' \<or> sg = CHR ''-'') \<and> ds \<noteq> [] \<and> list_all is_digit ds))"
proof -
  have tw: "list_all is_digit (takeWhile is_digit xs)" for xs
    by (induction xs) auto
  show ?thesis
    using assms tw
    by (auto simp: match_pattern_def Let_def split: list.splits if_splits)
qed

lemma convert_groups_digits:
  assumes "list_all is_digit c" "sd \<noteq> []" "list_all is_digit sd"
    and "m = [] \<or> (\<exists>sg ds. m = sg # ds \<and> (sg = CHR ''+'' \<or> sg = CHR ''-'') \<and> ds \<noteq> [] \<and> list_all is_digit ds)"
  shows "\<exists>t. convert_groups (c, sd, m) = Inr t"
proof -
  have c: "\<exists>n. (if c \<noteq> [] then py_int c else Inr 1) = Inr n"
    using assms(1) by (simp add: py_int_digits)
  have s: "\<exists>n. py_int sd = Inr n"
    using assms(2,3) by (simp add: py_int_digits)
  have m: "\<exists>n. (if m \<noteq> [] then py_int m else Inr 0) = Inr n"
    using assms(4) by (auto simp: py_int_signed)
  from c s m show ?thesis
    by (auto simp: convert_groups_def)
qed

lemma findall_convert: "g \<in> set (findall s) \<Longrightarrow> \<exists>t. convert_groups g = Inr t"
proof (induction s arbitrary: g rule: findall.induct)
  case 1
  then show ?case by simp
next
  case (2 c cs)
  show ?case
  proof (cases "match_pattern (c # cs)")
    case None
    with 2 show ?thesis by simp
  next
    case (Some a)
    obtain g' rest where a: "a = (g', rest)" by (cases a)
    obtain x y z where g': "g' = (x, y, z)" by (cases g')
    have "\<exists>t. convert_groups g' = Inr t"
      unfolding g'
      using match_pattern_groups [of "c # cs" x y z rest] Some a g'
      by (intro convert_groups_digits) simp_all
    moreover have "g = g' \<or> g \<in> set (findall rest)"
      using "2.prems" Some a by simp
    ultimately show ?thesis
      using "2.IH"(2) [OF Some a [symmetric]] by blast 
  qed
qed

lemma components_loop_ok:
  "map convert_groups ms = map Inr ts \<Longrightarrow> list_all in_bounds ts \<Longrightarrow>
   components_loop ms acc = Inr (acc @ ts)"
proof (induction ms arbitrary: ts acc)
  case Nil
  then show ?case by simp
next
  case (Cons g ms)
  then obtain t ts' where ts: "ts = t # ts'" by (cases ts) auto
  obtain c s m where t: "t = (c, s, m)" by (cases t)
  have g: "convert_groups g = Inr (c, s, m)" and ms: "map convert_groups ms = map Inr ts'"
    using Cons.prems(1) ts t by auto
  have b: "in_bounds (c, s, m)" and bs: "list_all in_bounds ts'"
    using Cons.prems(2) ts t by auto
  show ?case
    using g b Cons.IH [OF ms bs, of "acc @ [(c, s, m)]"] ts t
    by (simp add: in_bounds_def)
qed

lemma components_loop_fail:
  "map convert_groups ms = map Inr ts @ Inr (c, s, m) # rest \<Longrightarrow> list_all in_bounds ts \<Longrightarrow>
   \<not> in_bounds (c, s, m) \<Longrightarrow>
   components_loop ms acc =
     Inl (ValueError (if c < 1 \<or> 100 < c then ''Invalid dice count: '' @ str_int c
                      else ''Invalid dice sides: '' @ str_int s))"
proof (induction ms arbitrary: ts acc)
  case Nil
  then show ?case by simp
next
  case (Cons g ms)
  show ?case
  proof (cases ts)
    case Nil
    then have "convert_groups g = Inr (c, s, m)" using Cons.prems(1) by simp
    then show ?thesis using Cons.prems(3) by (auto simp: in_bounds_def)
  next
    case (Cons t ts')
    obtain c' s' m' where t: "t = (c', s', m')" by (cases t)
    have g: "convert_groups g = Inr (c', s', m')"
      and ms: "map convert_groups ms = map Inr ts' @ Inr (c, s, m) # rest"
      using Cons.prems(1) Cons t by auto
    have b: "in_bounds (c', s', m')" and bs: "list_all in_bounds ts'"
      using Cons.prems(2) Cons t by auto
    show ?thesis
      using g b Cons.IH [OF ms bs Cons.prems(3), of "acc @ [(c', s', m')]"]
      by (simp add: in_bounds_def)
  qed
qed

lemma components_loop_cases:
  "\<forall>g\<in>set ms. \<exists>t. convert_groups g = Inr t \<Longrightarrow>
   (\<exists>r. components_loop ms acc = Inr r) \<or>
   (\<exists>c. components_loop ms acc = Inl (ValueError (''Invalid dice count: '' @ str_int c))) \<or>
   (\<exists>s. components_loop ms acc = Inl (ValueError (''Invalid dice sides: '' @ str_int s)))"
proof (induction ms arbitrary: acc)
  case Nil
  then show ?case by simp
next
  case (Cons g ms)
  then obtain c s m where g: "convert_groups g = Inr (c, s, m)"
    by (metis list.set_intros(1) prod_cases3)
  have rest: "\<forall>g\<in>set ms. \<exists>t. convert_groups g = Inr t" using Cons.prems by simp
  show ?case
    using g Cons.IH [OF rest, of "acc @ [(c, s, m)]"] by auto
qed

subsection \<open>Cleaning and matching texts of known shape\<close>

lemma lower_char_digit: "is_digit c \<Longrightarrow> lower_char c = c"
proof -
  have t: "\<forall>x\<in>set ''0123456789''. lower_char x = x"
    by (simp add: lower_char_def)
  assume "is_digit c"
  then have "c \<in> set ''0123456789''" unfolding is_digit_def .
  with t show ?thesis by (rule bspec)
qed

lemma lower_char_plain:
  assumes "is_digit c \<or> c = CHR ''d'' \<or> c = CHR ''+'' \<or> c = CHR ''-''"
  shows "lower_char c = c"
proof -
  have "lower_char CHR ''d'' = CHR ''d''" "lower_char CHR ''+'' = CHR ''+''"
    "lower_char CHR ''-'' = CHR ''-''"
    by (simp_all add: lower_char_def)
  with assms lower_char_digit show ?thesis by blast
qed

lemma not_digit_space: "\<not> is_digit CHR '' ''"
  by (simp add: is_digit_def)

lemma not_space:
  "is_digit c \<or> c = CHR ''d'' \<or> c = CHR ''+'' \<or> c = CHR ''-'' \<Longrightarrow> c \<noteq> CHR '' ''"
  using not_digit_space by blast

lemma clean_plain:
  assumes "\<forall>c\<in>set s. is_digit c \<or> c = CHR ''d'' \<or> c = CHR ''+'' \<or> c = CHR ''-''"
  shows "lower (replace_spaces s) = s"
proof -
  have "\<forall>c\<in>set s. c \<noteq> CHR '' ''"
    using assms not_space by blast
  then have "replace_spaces s = s"
    by (simp add: replace_spaces_def)
  moreover have "map lower_char s = s"
    using assms by (intro map_idI lower_char_plain) blast
  ultimately show ?thesis by (simp add: lower_def)
qed

lemma takeWhile_digits: "list_all is_digit ds \<Longrightarrow> takeWhile is_digit ds = ds"
  by (simp add: list_all_iff)

lemma takeWhile_digits_stop:
  "list_all is_digit ds \<Longrightarrow> \<not> is_digit x \<Longrightarrow> takeWhile is_digit (ds @ x # r) = ds"
  by (simp add: list_all_iff takeWhile_tail)

lemma dropWhile_digits: "list_all is_digit ds \<Longrightarrow> dropWhile is_digit ds = []"
  by (simp add: list_all_iff)

lemma dropWhile_digits_stop:
  "list_all is_digit ds \<Longrightarrow> \<not> is_digit x \<Longrightarrow> dropWhile is_digit (ds @ x # r) = x # r"
  by (simp add: list_all_iff dropWhile_append3)

lemma not_digit_d: "\<not> is_digit CHR ''d''" and not_digit_plus: "\<not> is_digit CHR ''+''"
  and not_digit_minus: "\<not> is_digit CHR ''-''"
  by (simp_all add: is_digit_def)

lemma match_pattern_plain_end:
  assumes "list_all is_digit c" "sd \<noteq> []" "list_all is_digit sd"
  shows "match_pattern (c @ CHR ''d'' # sd) = Some ((c, sd, []), [])"
  using assms
  by (simp add: match_pattern_def takeWhile_digits_stop dropWhile_digits_stop not_digit_d
      takeWhile_digits dropWhile_digits)

lemma match_pattern_signed:
  assumes "list_all is_digit c" "sd \<noteq> []" "list_all is_digit sd"
    and "sg = CHR ''+'' \<or> sg = CHR ''-''" "ds \<noteq> []" "list_all is_digit ds"
    and "rest = [] \<or> \<not> is_digit (hd rest)"
  shows "match_pattern (c @ CHR ''d'' # sd @ sg # ds @ rest) = Some ((c, sd, sg # ds), rest)"
proof -
  have sg: "\<not> is_digit sg" using assms(4) not_digit_plus not_digit_minus by blast
  have t: "takeWhile is_digit (ds @ rest) = ds" and d: "dropWhile is_digit (ds @ rest) = rest"
    using assms(6,7) by (cases rest; simp add: list_all_iff)+
  show ?thesis
    using assms(1-5) sg t d
    by (simp add: match_pattern_def takeWhile_digits_stop dropWhile_digits_stop not_digit_d)
qed

lemma findall_match: "match_pattern s = Some (g, rest) \<Longrightarrow> findall s = g # findall rest"
  by (cases s) (auto simp: match_pattern_def)

lemma py_int_str_nat: "py_int (str_nat n) = Inr (int n)"
  by (simp add: py_int_digits str_nat_nonempty str_nat_digits digits_value_str_nat)

lemma convert_groups_plain:
  "convert_groups (str_nat c, str_nat s, []) = Inr (int c, int s, 0)"
  by (simp add: convert_groups_def py_int_str_nat str_nat_nonempty)

lemma convert_groups_default:
  "convert_groups ([], str_nat s, []) = Inr (1, int s, 0)"
  by (simp add: convert_groups_def py_int_str_nat)

lemma convert_groups_signed:
  "sg = CHR ''+'' \<or> sg = CHR ''-'' \<Longrightarrow>
   convert_groups (str_nat c, str_nat s, sg # str_nat m) =
     Inr (int c, int s, if sg = CHR ''-'' then - int m else int m)"
  by (simp add: convert_groups_def py_int_str_nat str_nat_nonempty py_int_signed
      str_nat_digits digits_value_str_nat)

lemma format_plus_d_sign:
  "format_plus_d m = (if m < 0 then CHR ''-'' else CHR ''+'') # str_nat (nat \<bar>m\<bar>)"
  by (simp add: format_plus_d_def str_int_def)

lemma set_str_nat: "c \<in> set (str_nat n) \<Longrightarrow> is_digit c"
  using str_nat_digits [of n] by (simp add: list_all_iff)

lemma parse_single:
  assumes "findall (lower (replace_spaces e)) = [g]" "convert_groups g = Inr t" "in_bounds t"
  shows "parse_dice_expression e = Inr [t]"
  using assms components_loop_ok [of "[g]" "[t]" "[]"]
  by (simp add: parse_dice_expression_def)

lemma clean_space: "lower (replace_spaces (a @ CHR '' '' # b)) = lower (replace_spaces (a @ b))"
  by (simp add: replace_spaces_def)

lemma lower_char_D: "lower_char CHR ''D'' = CHR ''d''" and lower_char_d: "lower_char CHR ''d'' = CHR ''d''"
  by (simp_all add: lower_char_def)

lemma clean_case:
  "lower (replace_spaces (a @ CHR ''D'' # b)) = lower (replace_spaces (a @ CHR ''d'' # b))"
  by (simp add: replace_spaces_def lower_def lower_char_D lower_char_d)

lemma variant_clean: "variant s t \<Longrightarrow> lower (replace_spaces t) = lower (replace_spaces s)"
proof (induction rule: variant.induct)
  case (same s)
  show ?case by simp
next
  case (space s a b)
  then show ?case by (simp only: clean_space)
next
  case (upper s a b)
  then show ?case by (simp only: clean_case)
next
  case (lower s a b)
  then show ?case by (simp only: clean_case [symmetric])
qed

subsection \<open>What parsing can return\<close>

lemma parse_cases:
  "(\<exists>r. parse_dice_expression e = Inr r) \<or>
   parse_dice_expression e = Inl (ValueError (''Invalid dice expression: '' @ lower (replace_spaces e))) \<or>
   (\<exists>c. parse_dice_expression e = Inl (ValueError (''Invalid dice count: '' @ str_int c))) \<or>
   (\<exists>s. parse_dice_expression e = Inl (ValueError (''Invalid dice sides: '' @ str_int s)))"
  using components_loop_cases [of "findall (lower (replace_spaces e))" "[]"] findall_convert
  by (auto simp: parse_dice_expression_def Let_def)

lemma parse_raises_value_error:
  "parse_dice_expression e = Inl x \<Longrightarrow> \<exists>msg. x = ValueError msg"
  using parse_cases [of e] by auto

lemma components_loop_in_bounds:
  "components_loop ms acc = Inr r \<Longrightarrow> list_all in_bounds acc \<Longrightarrow> list_all in_bounds r"
proof (induction ms arbitrary: acc)
  case Nil
  then show ?case by simp
next
  case (Cons g ms)
  show ?case
  proof (cases "convert_groups g")
    case (Inl e)
    with Cons.prems show ?thesis by simp
  next
    case (Inr t)
    obtain c s m where t: "t = (c, s, m)" by (cases t)
    have b: "in_bounds (c, s, m)"
      using Cons.prems(1) Inr t by (simp add: in_bounds_def split: if_splits)
    then have "components_loop ms (acc @ [(c, s, m)]) = Inr r"
      using Cons.prems(1) Inr t by (simp add: in_bounds_def split: if_splits)
    moreover have "list_all in_bounds (acc @ [(c, s, m)])"
      using Cons.prems(2) b by simp
    ultimately show ?thesis by (rule Cons.IH)
  qed
qed

lemma parse_in_bounds: "parse_dice_expression e = Inr ts \<Longrightarrow> list_all in_bounds ts"
  using components_loop_in_bounds [of "findall (lower (replace_spaces e))" "[]" ts]
  by (simp add: parse_dice_expression_def Let_def split: if_splits)

subsection \<open>Rolling\<close>

lemma randint_ok:
  "a \<le> b \<Longrightarrow> \<exists>r g'. randint a b g = (Inr r, g') \<and> a \<le> r \<and> r \<le> b"
proof -
  assume ab: "a \<le> b"
  then have pos: "0 < nat (b - a + 1)" by simp
  have "g 0 mod nat (b - a + 1) < nat (b - a + 1)"
    using pos by (rule mod_less_divisor)
  then have "int (g 0 mod nat (b - a + 1)) \<le> b - a" by linarith
  then show ?thesis using ab by (simp add: randint_def)
qed

text \<open>Every value of the range is delivered by some generator.\<close>

lemma randint_reaches:
  "a \<le> r \<Longrightarrow> r \<le> b \<Longrightarrow> fst (randint a b (\<lambda>i. nat (r - a))) = Inr r"
proof -
  assume a: "a \<le> r" and b: "r \<le> b"
  then have "nat (r - a) < nat (b - a + 1)" by linarith
  then have "nat (r - a) mod nat (b - a + 1) = nat (r - a)" by (rule mod_less)
  then show ?thesis using a b by (simp add: randint_def)
qed

lemma roll_list_ok:
  "1 \<le> sides \<Longrightarrow>
   \<exists>rolls g'. roll_list sides k g = (Inr rolls, g') \<and> length rolls = k \<and>
     (\<forall>r\<in>set rolls. 1 \<le> r \<and> r \<le> sides)"
proof (induction k arbitrary: g)
  case 0
  then show ?case by simp
next
  case (Suc k)
  obtain r g1 where r: "randint 1 sides g = (Inr r, g1)" "1 \<le> r" "r \<le> sides"
    using randint_ok [OF Suc.prems, of g] by blast
  obtain rolls g2 where rs: "roll_list sides k g1 = (Inr rolls, g2)" "length rolls = k"
    "\<forall>x\<in>set rolls. 1 \<le> x \<and> x \<le> sides"
    using Suc.IH [OF Suc.prems, of g1] by blast
  show ?case using r rs by simp
qed

lemma sum_list_bounds:
  "\<forall>r\<in>set rolls. 1 \<le> r \<and> r \<le> sides \<Longrightarrow>
   int (length rolls) \<le> sum_list rolls \<and> sum_list rolls \<le> int (length rolls) * sides"
proof (induction rolls)
  case Nil
  then show ?case by simp
next
  case (Cons r rolls)
  then have "int (length rolls) \<le> sum_list rolls" "sum_list rolls \<le> int (length rolls) * sides"
    "1 \<le> r" "r \<le> sides"
    by simp_all
  then show ?case by (simp add: algebra_simps)
qed

lemma roll_loop_ok:
  "list_all in_bounds ts \<Longrightarrow> \<exists>r g'. roll_loop ts total_sum parts g = (Inr r, g')"
proof (induction ts arbitrary: total_sum parts g)
  case Nil
  then show ?case by simp
next
  case (Cons t ts)
  obtain c s m where t: "t = (c, s, m)" by (cases t)
  have s: "1 \<le> s"
    using Cons.prems t by (simp add: in_bounds_def)
  have rest: "list_all in_bounds ts"
    using Cons.prems by simp
  obtain rolls g1 where rs: "roll_list s (nat c) g = (Inr rolls, g1)"
    using roll_list_ok [OF s, of "nat c" g] by blast
  show ?case
    using Cons.IH [OF rest, of "total_sum + (sum_list rolls + m)"
        "parts @ [breakdown_part (c, s, m) rolls]" g1] rs t
    by simp
qed

lemma breakdown_part_spec: "breakdown_part t rolls = spec_fragment t rolls"
proof -
  obtain c s m where t: "t = (c, s, m)" by (cases t)
  have one: "length rolls = 1 \<Longrightarrow> str_int (hd rolls) = join ''+'' (map str_int rolls)"
    by (cases rolls) simp_all
  have sg: "m \<noteq> 0 \<Longrightarrow> format_plus_d m = spec_signed_modifier m"
    by (simp add: format_plus_d_def spec_signed_modifier_def str_int_def)
  have z: "spec_signed_modifier 0 = []"
    by (simp add: spec_signed_modifier_def)
  show ?thesis
  proof (cases "m = 0")
    case True
    then show ?thesis
      using one by (simp add: t breakdown_part_def spec_fragment_def Let_def z)
  next
    case False
    then show ?thesis
      using one sg by (simp add: t breakdown_part_def spec_fragment_def Let_def)
  qed
qed

lemma roll_loop_valid:
  "list_all in_bounds ts \<Longrightarrow>
   \<exists>rollss g'. list_all2 valid_draws ts rollss \<and>
     roll_loop ts total_sum parts g =
       (Inr (total_sum + sum_list (map2 subtotal ts rollss),
             parts @ map2 breakdown_part ts rollss), g')"
proof (induction ts arbitrary: total_sum parts g)
  case Nil
  then show ?case by simp
next
  case (Cons t ts)
  obtain c s m where t: "t = (c, s, m)" by (cases t)
  have s: "1 \<le> s"
    using Cons.prems t by (simp add: in_bounds_def)
  have rest: "list_all in_bounds ts"
    using Cons.prems by simp
  obtain rolls g1 where rs: "roll_list s (nat c) g = (Inr rolls, g1)" "length rolls = nat c"
    "\<forall>r\<in>set rolls. 1 \<le> r \<and> r \<le> s"
    using roll_list_ok [OF s, of "nat c" g] by blast
  have v: "valid_draws t rolls"
    using rs(2,3) t by (simp add: valid_draws_def list_all_iff)
  obtain rollss g2 where ih: "list_all2 valid_draws ts rollss"
    "roll_loop ts (total_sum + (sum_list rolls + m)) (parts @ [breakdown_part (c, s, m) rolls]) g1 =
       (Inr (total_sum + (sum_list rolls + m) + sum_list (map2 subtotal ts rollss),
             (parts @ [breakdown_part (c, s, m) rolls]) @ map2 breakdown_part ts rollss), g2)"
    using Cons.IH [OF rest, of "total_sum + (sum_list rolls + m)"
        "parts @ [breakdown_part (c, s, m) rolls]" g1]
    by blast
  have "list_all2 valid_draws (t # ts) (rolls # rollss) \<and>
     roll_loop (t # ts) total_sum parts g =
       (Inr (total_sum + sum_list (map2 subtotal (t # ts) (rolls # rollss)),
             parts @ map2 breakdown_part (t # ts) (rolls # rollss)), g2)"
    using v ih rs(1) t by (simp add: subtotal_def)
  then show ?case by blast
qed

lemma roll_dice_valid:
  assumes "parse_dice_expression e = Inr ts"
  shows "\<exists>rollss g'. list_all2 valid_draws ts rollss \<and>
     roll_dice e g =
       (Inr (sum_list (map2 subtotal ts rollss), join '' | '' (map2 breakdown_part ts rollss), e), g')"
proof -
  obtain rollss g' where "list_all2 valid_draws ts rollss"
    "roll_loop ts 0 [] g =
       (Inr (0 + sum_list (map2 subtotal ts rollss), [] @ map2 breakdown_part ts rollss), g')"
    using roll_loop_valid [OF parse_in_bounds [OF assms], of 0 "[]" g] by blast
  then have "list_all2 valid_draws ts rollss \<and> roll_dice e g =
       (Inr (sum_list (map2 subtotal ts rollss), join '' | '' (map2 breakdown_part ts rollss), e), g')"
    using assms by (simp add: roll_dice_def)
  then show ?thesis by blast
qed

subsection \<open>A sign and digits before the letter d\<close>

text \<open>
  What the pattern does with the text \<open>XdY+ZdW\<close> for terms in bounds: the digits
  \<open>Z\<close> go to the first match as its modifier and the second match has no count.
\<close>

lemma sign_digits_before_d:
  assumes "1 \<le> x" "x \<le> 100" "1 \<le> y" "y \<le> 1000" "0 \<le> z" "1 \<le> w" "w \<le> 1000"
    and "sg = CHR ''+'' \<or> sg = CHR ''-''"
  shows "parse_dice_expression (str_int x @ ''d'' @ str_int y @ [sg] @ str_int z @ ''d'' @ str_int w)
           = Inr [(x, y, if sg = CHR ''-'' then - z else z), (1, w, 0)]"
proof -
  let ?x = "str_nat (nat x)" and ?y = "str_nat (nat y)" and ?z = "str_nat (nat z)"
    and ?w = "str_nat (nat w)"
  let ?e = "?x @ CHR ''d'' # ?y @ sg # ?z @ CHR ''d'' # ?w"
  let ?g1 = "(?x, ?y, sg # ?z)" and ?g2 = "([], ?w, [])"
  let ?t1 = "(x, y, if sg = CHR ''-'' then - z else z)" and ?t2 = "(1 :: int, w, 0 :: int)"
  have e: "str_int x @ ''d'' @ str_int y @ [sg] @ str_int z @ ''d'' @ str_int w = ?e"
    using assms by (simp add: str_int_def)
  have cl: "lower (replace_spaces ?e) = ?e"
    using assms(8) by (intro clean_plain) (auto dest: set_str_nat)
  have m1: "match_pattern ?e = Some (?g1, CHR ''d'' # ?w)"
    using assms(8)
    by (intro match_pattern_signed) (simp_all add: str_nat_digits str_nat_nonempty not_digit_d)
  have m2: "match_pattern ([] @ CHR ''d'' # ?w) = Some (?g2, [])"
    by (rule match_pattern_plain_end) (simp_all add: str_nat_digits str_nat_nonempty)
  have f: "findall ?e = [?g1, ?g2]"
    using findall_match [OF m1] findall_match [OF m2] by simp
  have c1: "convert_groups ?g1 = Inr ?t1"
    using assms by (simp add: convert_groups_signed)
  have c2: "convert_groups ?g2 = Inr ?t2"
    using assms by (simp add: convert_groups_default)
  have "components_loop [?g1, ?g2] [] = Inr ([] @ [?t1, ?t2])"
    using assms c1 c2 by (intro components_loop_ok) (simp_all add: in_bounds_def)
  then show ?thesis
    unfolding e by (simp add: parse_dice_expression_def cl f)
qed

section \<open>The claims\<close>

text \<open>
  Claim C1: in a sum of terms such as \<open>1d4+1d6\<close>, the sign and digits that open the
  second term belong to that term, so that parsing gives the terms (1, 4, 0) and
  (1, 6, 0). The code does not do this. Its pattern takes \<open>+1\<close> as the modifier of
  the first term and starts the second term at the letter \<open>d\<close>, with the default
  count: \<open>1d4+1d6\<close> gives (1, 4, 1) and (1, 6, 0), \<open>2d6+3d4\<close> gives (2, 6, 3) and
  (1, 4, 0), and \<open>1d8+2d4+5\<close> gives (1, 8, 2) and (1, 4, 5). A second term without a
  count is parsed as the claim says: \<open>2d6+d4\<close> gives (2, 6, 0) and (1, 4, 0).
\<close>

theorem adjacent_term_misparsed:
  "parse_dice_expression ''1d4+1d6'' = Inr [(1, 4, 1), (1, 6, 0)] \<and>
   parse_dice_expression ''1d4+1d6'' \<noteq> Inr [(1, 4, 0), (1, 6, 0)] \<and>
   parse_dice_expression ''2d6+3d4'' = Inr [(2, 6, 3), (1, 4, 0)] \<and>
   parse_dice_expression ''1d8+2d4+5'' = Inr [(1, 8, 2), (1, 4, 5)] \<and>
   parse_dice_expression ''2d6+d4'' = Inr [(2, 6, 0), (1, 4, 0)]"
  by code_simp

text \<open>
  Claim C2. For a count from 1 to 100, sides from 1 to 1000 and any integer modifier,
  parsing the text \<^verbatim>\<open>f"{count}d{sides}{modifier:+d}"\<close> gives exactly the one term
  (count, sides, modifier), and parsing the unsigned text \<^verbatim>\<open>f"{count}d{sides}"\<close>
  gives the one term (count, sides, 0).
\<close>

theorem single_term_round_trip:
  assumes "1 \<le> count" "count \<le> 100" "1 \<le> sides" "sides \<le> 1000"
  shows "parse_dice_expression (str_int count @ ''d'' @ str_int sides @ format_plus_d modifier)
           = Inr [(count, sides, modifier)] \<and>
         parse_dice_expression (str_int count @ ''d'' @ str_int sides) = Inr [(count, sides, 0)]"
proof
  let ?c = "str_nat (nat count)" and ?s = "str_nat (nat sides)" and ?m = "str_nat (nat \<bar>modifier\<bar>)"
  let ?sg = "if modifier < 0 then CHR ''-'' else CHR ''+''"
  have c: "str_int count = ?c" and s: "str_int sides = ?s"
    using assms by (simp_all add: str_int_def)
  have b: "in_bounds (count, sides, modifier)" "in_bounds (count, sides, 0)"
    using assms by (simp_all add: in_bounds_def)
  let ?e = "?c @ CHR ''d'' # ?s @ ?sg # ?m"
  have e: "str_int count @ ''d'' @ str_int sides @ format_plus_d modifier = ?e"
    by (simp add: c s format_plus_d_sign)
  have "lower (replace_spaces ?e) = ?e"
    by (rule clean_plain) (auto dest: set_str_nat)
  moreover have "match_pattern (?c @ CHR ''d'' # ?s @ ?sg # ?m @ []) = Some ((?c, ?s, ?sg # ?m), [])"
    by (rule match_pattern_signed) (simp_all add: str_nat_digits str_nat_nonempty)
  ultimately have f: "findall (lower (replace_spaces ?e)) = [(?c, ?s, ?sg # ?m)]"
    using findall_match [of ?e "(?c, ?s, ?sg # ?m)" "[]"] by simp
  have g: "convert_groups (?c, ?s, ?sg # ?m) = Inr (count, sides, modifier)"
    using assms by (simp add: convert_groups_signed)
  show "parse_dice_expression (str_int count @ ''d'' @ str_int sides @ format_plus_d modifier)
           = Inr [(count, sides, modifier)]"
    unfolding e by (rule parse_single [OF f g b(1)])
  let ?u = "?c @ CHR ''d'' # ?s"
  have u: "str_int count @ ''d'' @ str_int sides = ?u"
    by (simp add: c s)
  have "lower (replace_spaces ?u) = ?u"
    by (rule clean_plain) (auto dest: set_str_nat)
  moreover have "match_pattern ?u = Some ((?c, ?s, []), [])"
    by (rule match_pattern_plain_end) (simp_all add: str_nat_digits str_nat_nonempty)
  ultimately have f': "findall (lower (replace_spaces ?u)) = [(?c, ?s, [])]"
    using findall_match [of ?u "(?c, ?s, [])" "[]"] by simp
  have g': "convert_groups (?c, ?s, []) = Inr (count, sides, 0)"
    using assms by (simp add: convert_groups_plain)
  show "parse_dice_expression (str_int count @ ''d'' @ str_int sides) = Inr [(count, sides, 0)]"
    unfolding u by (rule parse_single [OF f' g' b(2)])
qed

theorem single_term_round_trip_witness:
  "parse_dice_expression ''2d6-3'' = Inr [(2, 6, - 3)] \<and>
   parse_dice_expression ''2d6'' = Inr [(2, 6, 0)] \<and>
   parse_dice_expression ''100d1000+0'' = Inr [(100, 1000, 0)] \<and>
   parse_dice_expression ''1d1+250'' = Inr [(1, 1, 250)]"
proof -
  have s: "str_int 2 = ''2''" "str_int 6 = ''6''" "str_int 100 = ''100''"
    "str_int 1000 = ''1000''" "str_int 1 = ''1''"
    by code_simp+
  have f: "format_plus_d (- 3) = ''-3''" "format_plus_d 0 = ''+0''" "format_plus_d 250 = ''+250''"
    by code_simp+
  have a: "parse_dice_expression (str_int 2 @ ''d'' @ str_int 6 @ format_plus_d (- 3))
           = Inr [(2, 6, - 3)] \<and>
         parse_dice_expression (str_int 2 @ ''d'' @ str_int 6) = Inr [(2, 6, 0)]"
    by (rule single_term_round_trip) simp_all
  have b: "parse_dice_expression (str_int 100 @ ''d'' @ str_int 1000 @ format_plus_d 0)
           = Inr [(100, 1000, 0)] \<and>
         parse_dice_expression (str_int 100 @ ''d'' @ str_int 1000) = Inr [(100, 1000, 0)]"
    by (rule single_term_round_trip) simp_all
  have c: "parse_dice_expression (str_int 1 @ ''d'' @ str_int 1 @ format_plus_d 250)
           = Inr [(1, 1, 250)] \<and>
         parse_dice_expression (str_int 1 @ ''d'' @ str_int 1) = Inr [(1, 1, 0)]"
    by (rule single_term_round_trip) simp_all
  from a b c show ?thesis
    unfolding s f by simp
qed

text \<open>
  Claim C3. When the extracted term sequence has a term out of bounds, parsing fails at
  the leftmost such term: with \<open>Invalid dice count\<close> when its count is outside 1 .. 100
  (the count is checked first), with \<open>Invalid dice sides\<close> when its count is fine and
  its sides are outside 1 .. 1000. The result is the error alone; the terms before the
  violation are not returned.
\<close>

theorem first_violation_aborts:
  assumes "extracted e = map Inr ts @ Inr (c, s, m) # rest"
    and "list_all in_bounds ts"
    and "\<not> in_bounds (c, s, m)"
  shows "parse_dice_expression e =
           Inl (ValueError (if c < 1 \<or> 100 < c then ''Invalid dice count: '' @ str_int c
                            else ''Invalid dice sides: '' @ str_int s))"
proof -
  have "findall (lower (replace_spaces e)) \<noteq> []"
    using assms(1) by (auto simp: extracted_def)
  then show ?thesis
    using components_loop_fail [OF assms(1) [unfolded extracted_def] assms(2,3), of "[]"]
    by (simp add: parse_dice_expression_def Let_def)
qed

theorem first_violation_aborts_witness:
  "parse_dice_expression ''101d6'' = Inl (ValueError ''Invalid dice count: 101'') \<and>
   parse_dice_expression ''1d1001'' = Inl (ValueError ''Invalid dice sides: 1001'') \<and>
   parse_dice_expression ''2d6+1, 3d2000, 0d4'' = Inl (ValueError ''Invalid dice sides: 2000'') \<and>
   parse_dice_expression ''0d0'' = Inl (ValueError ''Invalid dice count: 0'')"
proof -
  have a: "extracted ''101d6'' = map Inr [] @ Inr (101, 6, 0) # []" by code_simp
  have b: "extracted ''1d1001'' = map Inr [] @ Inr (1, 1001, 0) # []" by code_simp
  have c: "extracted ''2d6+1, 3d2000, 0d4'' = map Inr [(2, 6, 1)] @ Inr (3, 2000, 0) # [Inr (0, 4, 0)]"
    by code_simp
  have d: "extracted ''0d0'' = map Inr [] @ Inr (0, 0, 0) # []" by code_simp
  have s0: "str_int 0 = ''0''" by code_simp
  have s1: "str_int 101 = ''101''" by code_simp
  have s2: "str_int 1001 = ''1001''" by code_simp
  have s3: "str_int 2000 = ''2000''" by code_simp
  show ?thesis
    using first_violation_aborts [OF a] first_violation_aborts [OF b] first_violation_aborts [OF c]
      first_violation_aborts [OF d]
    by (simp add: in_bounds_def s0 s1 s2 s3)
qed

text \<open>
  Claim C4. On a term sequence whose terms are all in bounds the evaluation loop never
  fails, whatever the random generator delivers. For a single term (n, s, m) in bounds,
  every outcome consists of exactly n draws, each from 1 to s, shown between the
  brackets of the fragment, and its total lies between n * 1 + m and n * s + m.
\<close>

theorem evaluation_never_fails:
  "(list_all in_bounds ts \<longrightarrow> (\<exists>r g'. roll_loop ts 0 [] g = (Inr r, g'))) \<and>
   (in_bounds (n, s, m) \<longrightarrow>
      (\<exists>rolls g'.
         roll_loop [(n, s, m)] 0 [] g =
           (Inr (sum_list rolls + m, [spec_fragment (n, s, m) rolls]), g') \<and>
         int (length rolls) = n \<and> (\<forall>r\<in>set rolls. 1 \<le> r \<and> r \<le> s) \<and>
         n * 1 + m \<le> sum_list rolls + m \<and> sum_list rolls + m \<le> n * s + m))"
proof (intro conjI impI)
  assume "list_all in_bounds ts"
  then show "\<exists>r g'. roll_loop ts 0 [] g = (Inr r, g')"
    by (rule roll_loop_ok)
next
  assume b: "in_bounds (n, s, m)"
  then have "list_all in_bounds [(n, s, m)]" by simp
  from roll_loop_valid [OF this, of 0 "[]" g]
  obtain rollss g' where v: "list_all2 valid_draws [(n, s, m)] rollss"
    and r: "roll_loop [(n, s, m)] 0 [] g =
       (Inr (0 + sum_list (map2 subtotal [(n, s, m)] rollss),
             [] @ map2 breakdown_part [(n, s, m)] rollss), g')"
    by blast
  from v obtain rolls where rollss: "rollss = [rolls]" and vr: "valid_draws (n, s, m) rolls"
    by (auto simp: list_all2_Cons1)
  have len: "length rolls = nat n" and rng: "\<forall>r\<in>set rolls. 1 \<le> r \<and> r \<le> s"
    using vr by (simp_all add: valid_draws_def list_all_iff)
  have n: "int (length rolls) = n"
    using len b by (simp add: in_bounds_def)
  have "int (length rolls) \<le> sum_list rolls \<and> sum_list rolls \<le> int (length rolls) * s"
    using rng by (rule sum_list_bounds)
  then have bounds: "n * 1 + m \<le> sum_list rolls + m \<and> sum_list rolls + m \<le> n * s + m"
    using n by simp
  have "roll_loop [(n, s, m)] 0 [] g =
           (Inr (sum_list rolls + m, [spec_fragment (n, s, m) rolls]), g')"
    using r rollss by (simp add: subtotal_def breakdown_part_spec)
  with n rng bounds show "\<exists>rolls g'.
         roll_loop [(n, s, m)] 0 [] g =
           (Inr (sum_list rolls + m, [spec_fragment (n, s, m) rolls]), g') \<and>
         int (length rolls) = n \<and> (\<forall>r\<in>set rolls. 1 \<le> r \<and> r \<le> s) \<and>
         n * 1 + m \<le> sum_list rolls + m \<and> sum_list rolls + m \<le> n * s + m"
    by blast
qed

theorem evaluation_never_fails_witness:
  "(\<exists>r g'. roll_loop [(2, 6, - 3), (1, 20, 0)] 0 [] (\<lambda>i. 7 * i + 3) = (Inr r, g')) \<and>
   (\<exists>rolls g'.
      roll_loop [(2, 6, - 3)] 0 [] (\<lambda>i. 7 * i + 3) =
        (Inr (sum_list rolls + - 3, [spec_fragment (2, 6, - 3) rolls]), g') \<and>
      int (length rolls) = 2 \<and> (\<forall>r\<in>set rolls. 1 \<le> r \<and> r \<le> 6) \<and>
      2 * 1 + - 3 \<le> sum_list rolls + - 3 \<and> sum_list rolls + - 3 \<le> 2 * 6 + - 3) \<and>
   fst (roll_loop [(2, 6, - 3)] 0 [] (\<lambda>i. 7 * i + 3)) = Inr (6, [''2d6: [4+5]-3 = 6''])"
proof -
  have a: "list_all in_bounds [(2, 6, - 3), (1, 20, 0)]" "in_bounds (2, 6, - 3)"
    by (simp_all add: in_bounds_def)
  have e: "fst (roll_loop [(2, 6, - 3)] 0 [] (\<lambda>i. 7 * i + 3)) = Inr (6, [''2d6: [4+5]-3 = 6''])"
    by code_simp
  show ?thesis
    using evaluation_never_fails [of "[(2, 6, - 3), (1, 20, 0)]" "\<lambda>i. 7 * i + 3" 2 6 "- 3"] a e
    by simp
qed

text \<open>
  Claim C5, as the code has it. Cleaning removes every space character and lowers the
  case of letters: parsing gives the same terms, or the same failure, after any number
  of space characters are inserted anywhere and any letter \<open>d\<close> is replaced by \<open>D\<close> or
  back. Other whitespace characters are not removed.
\<close>

theorem space_and_case_insensitive:
  "variant s t \<Longrightarrow> parse_dice_expression t = parse_dice_expression s"
  using variant_clean [of s t] by (simp add: parse_dice_expression_def)

theorem space_and_case_insensitive_witness:
  "variant ''2d6+3'' '' 2D6 +3'' \<and>
   parse_dice_expression '' 2D6 +3'' = parse_dice_expression ''2d6+3'' \<and>
   parse_dice_expression '' 2D6 +3'' = Inr [(2, 6, 3)]"
proof -
  have v0: "variant ''2d6+3'' ''2d6+3''" by (rule variant.same)
  have v1: "variant ''2d6+3'' ''2D6+3''"
    using variant.upper [of "''2d6+3''" "''2''" "''6+3''"] v0 by simp
  have v2: "variant ''2d6+3'' ''2D6 +3''"
    using variant.space [of "''2d6+3''" "''2D6''" "''+3''"] v1 by simp
  have v3: "variant ''2d6+3'' '' 2D6 +3''"
    using variant.space [of "''2d6+3''" "[]" "''2D6 +3''"] v2 by simp
  have p: "parse_dice_expression ''2d6+3'' = Inr [(2, 6, 3)]" by code_simp
  show ?thesis
    using space_and_case_insensitive [OF v3] v3 p by simp
qed

text \<open>
  Claim C5 as stated fails for whitespace other than the space character: with a tab
  inserted after the count, \<open>2d6\<close> no longer parses to the term (2, 6, 0) but to
  (1, 6, 0).
\<close>

theorem tab_not_stripped_counterexample:
  "parse_dice_expression [CHR ''2'', CHR 0x09, CHR ''d'', CHR ''6''] = Inr [(1, 6, 0)] \<and>
   parse_dice_expression ''2d6'' = Inr [(2, 6, 0)] \<and>
   parse_dice_expression [CHR ''2'', CHR 0x09, CHR ''d'', CHR ''6''] \<noteq> parse_dice_expression ''2d6''"
  by code_simp

text \<open>
  Claim C6. The part of the breakdown computed for a term and its draws is the fragment
  of the specification: count, \<open>d\<close>, sides, a colon, the draws joined by \<open>+\<close> between
  brackets (also a single draw), the modifier with its sign when it is not zero (a
  negative modifier shows its minus sign alone) and nothing when it is zero, then the
  subtotal. The breakdown returned by \<^verbatim>\<open>roll_dice\<close> is these fragments, one for each
  parsed term with draws that term admits, joined by \<open> | \<close>.
\<close>

theorem breakdown_format:
  "breakdown_part (c, s, m) rolls = spec_fragment (c, s, m) rolls \<and>
   (fst (roll_dice e g) = Inr (tot, breakdown, x) \<longrightarrow>
      (\<exists>ts rollss. parse_dice_expression e = Inr ts \<and> list_all2 valid_draws ts rollss \<and>
         breakdown = join '' | '' (map2 spec_fragment ts rollss)))"
proof (intro conjI impI)
  show "breakdown_part (c, s, m) rolls = spec_fragment (c, s, m) rolls"
    by (rule breakdown_part_spec)
next
  assume r: "fst (roll_dice e g) = Inr (tot, breakdown, x)"
  show "\<exists>ts rollss. parse_dice_expression e = Inr ts \<and> list_all2 valid_draws ts rollss \<and>
         breakdown = join '' | '' (map2 spec_fragment ts rollss)"
  proof (cases "parse_dice_expression e")
    case (Inl err)
    with r show ?thesis by (simp add: roll_dice_def)
  next
    case (Inr ts)
    obtain rollss g' where v: "list_all2 valid_draws ts rollss"
      and d: "roll_dice e g =
       (Inr (sum_list (map2 subtotal ts rollss), join '' | '' (map2 breakdown_part ts rollss), e), g')"
      using roll_dice_valid [OF Inr, of g] by blast
    have "map2 breakdown_part ts rollss = map2 spec_fragment ts rollss"
      by (simp add: breakdown_part_spec)
    with r d have "breakdown = join '' | '' (map2 spec_fragment ts rollss)"
      by simp
    with Inr v show ?thesis by blast
  qed
qed

theorem breakdown_format_witness:
  "breakdown_part (2, 6, - 3) [4, 5] = ''2d6: [4+5]-3 = 6'' \<and>
   breakdown_part (1, 20, 0) [18] = ''1d20: [18] = 18'' \<and>
   breakdown_part (3, 4, 2) [1, 4, 2] = ''3d4: [1+4+2]+2 = 9'' \<and>
   fst (roll_dice ''2d6-3 | D20'' (\<lambda>i. 7 * i + 3)) =
     Inr (24, ''2d6: [4+5]-3 = 6 | 1d20: [18] = 18'', ''2d6-3 | D20'') \<and>
   (\<exists>ts rollss. parse_dice_expression ''2d6-3 | D20'' = Inr ts \<and>
      list_all2 valid_draws ts rollss \<and>
      ''2d6: [4+5]-3 = 6 | 1d20: [18] = 18'' = join '' | '' (map2 spec_fragment ts rollss))"
proof -
  have f: "spec_fragment (2, 6, - 3) [4, 5] = ''2d6: [4+5]-3 = 6''"
    "spec_fragment (1, 20, 0) [18] = ''1d20: [18] = 18''"
    "spec_fragment (3, 4, 2) [1, 4, 2] = ''3d4: [1+4+2]+2 = 9''"
    by code_simp+
  have r: "fst (roll_dice ''2d6-3 | D20'' (\<lambda>i. 7 * i + 3)) =
     Inr (24, ''2d6: [4+5]-3 = 6 | 1d20: [18] = 18'', ''2d6-3 | D20'')"
    by code_simp
  show ?thesis
    using breakdown_format [of 2 6 "- 3" "[4, 5]" "''2d6-3 | D20''" "\<lambda>i. 7 * i + 3" 24
        "''2d6: [4+5]-3 = 6 | 1d20: [18] = 18''" "''2d6-3 | D20''"]
      breakdown_format [of 1 20 0 "[18]" "[]" "\<lambda>i. 0" 0 "[]" "[]"]
      breakdown_format [of 3 4 2 "[1, 4, 2]" "[]" "\<lambda>i. 0" 0 "[]" "[]"]
      r
    by (simp add: f)
qed

text \<open>
  Claim C7. When the pattern matches nowhere in the cleaned text, parsing fails with the
  message \<open>Invalid dice expression: \<close> followed by the cleaned text; the texts
  \<open>hello\<close> and the empty text are such inputs. When the pattern matches at least once,
  parsing never fails with a message that starts with \<open>Invalid dice expression: \<close>.
\<close>

theorem no_match_invalid_expression:
  "(findall (lower (replace_spaces e)) = [] \<longrightarrow>
      parse_dice_expression e =
        Inl (ValueError (''Invalid dice expression: '' @ lower (replace_spaces e)))) \<and>
   (findall (lower (replace_spaces e)) \<noteq> [] \<longrightarrow>
      (\<forall>msg. parse_dice_expression e \<noteq> Inl (ValueError (''Invalid dice expression: '' @ msg))))"
proof (intro conjI impI allI)
  assume "findall (lower (replace_spaces e)) = []"
  then show "parse_dice_expression e =
        Inl (ValueError (''Invalid dice expression: '' @ lower (replace_spaces e)))"
    by (simp add: parse_dice_expression_def)
next
  fix msg
  assume ne: "findall (lower (replace_spaces e)) \<noteq> []"
  have "(\<exists>r. components_loop (findall (lower (replace_spaces e))) [] = Inr r) \<or>
   (\<exists>c. components_loop (findall (lower (replace_spaces e))) [] = Inl (ValueError (''Invalid dice count: '' @ str_int c))) \<or>
   (\<exists>s. components_loop (findall (lower (replace_spaces e))) [] = Inl (ValueError (''Invalid dice sides: '' @ str_int s)))"
    using components_loop_cases [of "findall (lower (replace_spaces e))" "[]"] findall_convert
    by blast
  then show "parse_dice_expression e \<noteq> Inl (ValueError (''Invalid dice expression: '' @ msg))"
    using ne by (auto simp: parse_dice_expression_def Let_def)
qed

theorem no_match_invalid_expression_witness:
  "findall (lower (replace_spaces ''hello'')) = [] \<and>
   parse_dice_expression ''hello'' = Inl (ValueError ''Invalid dice expression: hello'') \<and>
   findall (lower (replace_spaces [])) = [] \<and>
   parse_dice_expression [] = Inl (ValueError ''Invalid dice expression: '') \<and>
   findall (lower (replace_spaces ''x 101D6'')) \<noteq> [] \<and>
   parse_dice_expression ''x 101D6'' \<noteq> Inl (ValueError ''Invalid dice expression: x101d6'')"
proof -
  have a: "findall (lower (replace_spaces ''hello'')) = []" by code_simp
  have b: "findall (lower (replace_spaces [])) = []" by code_simp
  have c: "findall (lower (replace_spaces ''x 101D6'')) \<noteq> []" by code_simp
  have a': "lower (replace_spaces ''hello'') = ''hello''" by code_simp
  have b': "lower (replace_spaces []) = []" by code_simp
  show ?thesis
    using no_match_invalid_expression [of "''hello''"] no_match_invalid_expression [of "[]"]
      no_match_invalid_expression [of "''x 101D6''"] a b c a' b'
    by simp
qed

text \<open>
  Claim C8. Whenever \<^verbatim>\<open>roll_dice\<close> succeeds, the expression in its result is the
  text it was called with, character for character, and so is the expression in the
  response of the endpoint. \<^verbatim>\<open>roll_dice\<close> succeeds on every text that parses, and
  so does the endpoint when the table exists and the text has at most 100 characters.
\<close>

theorem original_expression_echoed:
  "(fst (roll_dice e g) = Inr (tot, breakdown, x) \<longrightarrow> x = e) \<and>
   (fst (roll_dice_endpoint found e g) = Inr (DiceRollResponse x' result breakdown') \<longrightarrow> x' = e) \<and>
   (parse_dice_expression e = Inr ts \<longrightarrow>
      (\<exists>tot breakdown. fst (roll_dice e g) = Inr (tot, breakdown, e) \<and>
         (length e \<le> 100 \<longrightarrow>
            fst (roll_dice_endpoint True e g) = Inr (DiceRollResponse e tot breakdown))))"
proof (intro conjI impI)
  assume r: "fst (roll_dice e g) = Inr (tot, breakdown, x)"
  show "x = e"
  proof (cases "parse_dice_expression e")
    case (Inl err)
    with r show ?thesis by (simp add: roll_dice_def)
  next
    case (Inr ts)
    from roll_dice_valid [OF Inr, of g] r show ?thesis by auto
  qed
next
  assume r: "fst (roll_dice_endpoint found e g) = Inr (DiceRollResponse x' result breakdown')"
  show "x' = e"
  proof (cases "parse_dice_expression e")
    case (Inl err)
    then obtain msg where "parse_dice_expression e = Inl (ValueError msg)"
      using parse_raises_value_error by blast
    with r show ?thesis
      by (simp add: roll_dice_endpoint_def validate_dice_expression_def split: if_splits)
  next
    case (Inr ts)
    from roll_dice_valid [OF Inr, of g] obtain tot b g' where "roll_dice e g = (Inr (tot, b, e), g')"
      by blast
    with r Inr show ?thesis
      by (simp add: roll_dice_endpoint_def validate_dice_expression_def split: if_splits)
  qed
next
  assume p: "parse_dice_expression e = Inr ts"
  have ne: "e \<noteq> []"
    using p by (auto simp: parse_dice_expression_def lower_def replace_spaces_def)
  from roll_dice_valid [OF p, of g] obtain tot b g' where d: "roll_dice e g = (Inr (tot, b, e), g')"
    by blast
  then have "fst (roll_dice e g) = Inr (tot, b, e) \<and>
         (length e \<le> 100 \<longrightarrow>
            fst (roll_dice_endpoint True e g) = Inr (DiceRollResponse e tot b))"
    using p ne by (simp add: roll_dice_endpoint_def validate_dice_expression_def)
  then show "\<exists>tot breakdown. fst (roll_dice e g) = Inr (tot, breakdown, e) \<and>
         (length e \<le> 100 \<longrightarrow>
            fst (roll_dice_endpoint True e g) = Inr (DiceRollResponse e tot breakdown))"
    by blast
qed

theorem original_expression_echoed_witness:
  "fst (roll_dice '' 2D6 - 3'' (\<lambda>i. 7 * i + 3)) = Inr (6, ''2d6: [4+5]-3 = 6'', '' 2D6 - 3'') \<and>
   fst (roll_dice_endpoint True '' 2D6 - 3'' (\<lambda>i. 7 * i + 3)) =
     Inr (DiceRollResponse '' 2D6 - 3'' 6 ''2d6: [4+5]-3 = 6'') \<and>
   (\<exists>tot breakdown. fst (roll_dice '' 2D6 - 3'' (\<lambda>i. 7 * i + 3)) = Inr (tot, breakdown, '' 2D6 - 3'') \<and>
      fst (roll_dice_endpoint True '' 2D6 - 3'' (\<lambda>i. 7 * i + 3)) =
        Inr (DiceRollResponse '' 2D6 - 3'' tot breakdown))"
proof -
  have r: "fst (roll_dice '' 2D6 - 3'' (\<lambda>i. 7 * i + 3)) = Inr (6, ''2d6: [4+5]-3 = 6'', '' 2D6 - 3'')"
    by code_simp
  have h: "fst (roll_dice_endpoint True '' 2D6 - 3'' (\<lambda>i. 7 * i + 3)) =
     Inr (DiceRollResponse '' 2D6 - 3'' 6 ''2d6: [4+5]-3 = 6'')"
    by code_simp
  have p: "parse_dice_expression '' 2D6 - 3'' = Inr [(2, 6, - 3)]"
    by code_simp
  show ?thesis
    using original_expression_echoed [of "'' 2D6 - 3''" "\<lambda>i. 7 * i + 3" 6 "''2d6: [4+5]-3 = 6''"
        "'' 2D6 - 3''" True "'' 2D6 - 3''" 6 "''2d6: [4+5]-3 = 6''" "[(2, 6, - 3)]"] r h p
    by simp
qed

text \<open>
  Claim C9. \<^verbatim>\<open>validate_dice_expression\<close> never raises: on every text it returns
  a boolean, \<open>True\<close> exactly when parsing succeeds and \<open>False\<close> exactly when parsing
  fails, whichever of the three failures it is.
\<close>

theorem validate_never_raises:
  "validate_dice_expression e = Inr (\<exists>components. parse_dice_expression e = Inr components)"
  using parse_cases [of e]
  by (auto simp: validate_dice_expression_def split: sum.splits py_exception.splits)

theorem validate_never_raises_witness:
  "validate_dice_expression ''2d6+3'' = Inr True \<and>
   validate_dice_expression ''hello'' = Inr False \<and>
   validate_dice_expression ''101d6'' = Inr False \<and>
   validate_dice_expression ''1d1001'' = Inr False"
proof -
  have a: "parse_dice_expression ''2d6+3'' = Inr [(2, 6, 3)]" by code_simp
  have b: "parse_dice_expression ''hello'' = Inl (ValueError ''Invalid dice expression: hello'')" by code_simp
  have c: "parse_dice_expression ''101d6'' = Inl (ValueError ''Invalid dice count: 101'')" by code_simp
  have d: "parse_dice_expression ''1d1001'' = Inl (ValueError ''Invalid dice sides: 1001'')" by code_simp
  show ?thesis
    using validate_never_raises [of "''2d6+3''"] validate_never_raises [of "''hello''"]
      validate_never_raises [of "''101d6''"] validate_never_raises [of "''1d1001''"]
    by (simp add: a b c d)
qed

text \<open>
  Claim C10, as the code has it. When parsing fails, \<^verbatim>\<open>roll_dice\<close> raises a new
  \<^verbatim>\<open>ValueError\<close> whose message is \<open>Error rolling dice: \<close> followed by the message
  of the parser's error. The endpoint validates the expression before it rolls, so for
  such a text of 1 to 100 characters (the texts the request schema lets through) it
  answers with status 400 and the fixed message \<open>Invalid dice expression\<close>.
\<close>

theorem parse_failure_wrapped:
  "parse_dice_expression e = Inl x \<Longrightarrow>
   roll_dice e g = (Inl (ValueError (''Error rolling dice: '' @ str_exception x)), g) \<and>
   (1 \<le> length e \<and> length e \<le> 100 \<longrightarrow>
      roll_dice_endpoint True e g = (Inr (HTTPException 400 ''Invalid dice expression''), g))"
proof -
  assume p: "parse_dice_expression e = Inl x"
  then obtain msg where "x = ValueError msg"
    using parse_raises_value_error by blast
  with p show ?thesis
    by (auto simp: roll_dice_def roll_dice_endpoint_def validate_dice_expression_def)
qed

theorem parse_failure_wrapped_witness:
  "roll_dice ''101d6'' (\<lambda>i. 0) =
     (Inl (ValueError ''Error rolling dice: Invalid dice count: 101''), \<lambda>i. 0) \<and>
   roll_dice_endpoint True ''101d6'' (\<lambda>i. 0) =
     (Inr (HTTPException 400 ''Invalid dice expression''), \<lambda>i. 0) \<and>
   fst (roll_dice_endpoint True [] (\<lambda>i. 0)) = Inr RequestValidationError"
proof -
  have p: "parse_dice_expression ''101d6'' = Inl (ValueError ''Invalid dice count: 101'')"
    by code_simp
  have l: "length ''101d6'' = 5" by simp
  have v: "fst (roll_dice_endpoint True [] (\<lambda>i. 0)) = Inr RequestValidationError"
    by (simp add: roll_dice_endpoint_def)
  show ?thesis
    using parse_failure_wrapped [OF p, of "\<lambda>i. 0"] l v by simp
qed

text \<open>
  Claim C10 as stated fails at the endpoint: for the text \<open>hello\<close> the message of the
  400 answer is \<open>Invalid dice expression\<close>, which does not start with
  \<open>Error rolling dice: \<close>.
\<close>

theorem endpoint_message_counterexample:
  "fst (roll_dice_endpoint True ''hello'' (\<lambda>i. 0)) =
     Inr (HTTPException 400 ''Invalid dice expression'') \<and>
   take (length ''Error rolling dice: '') ''Invalid dice expression'' \<noteq> ''Error rolling dice: ''"
  by code_simp

end
